theory Spec2Isabelle
  imports Main "HOL-Library.Word"
begin

section \<open>Byte slices\<close>

text \<open>
  A Go byte slice is a window on a backing array: it is nil, or it has a length and a
  capacity. Only the bytes below the length can be observed by the package (every read
  goes through \<open>copy\<close>, \<open>append\<close> or a conversion), so a slice is modelled by its
  visible bytes and its capacity. The nil slice has length and capacity 0.
\<close>

type_synonym byte = "8 word"

datatype slice = NilSlice | Slice "byte list" nat

fun elems :: "slice \<Rightarrow> byte list" where
  "elems NilSlice = []"
| "elems (Slice xs c) = xs"

fun len_slice :: "slice \<Rightarrow> nat" where
  "len_slice NilSlice = 0"
| "len_slice (Slice xs c) = length xs"

fun cap_slice :: "slice \<Rightarrow> nat" where
  "cap_slice NilSlice = 0"
| "cap_slice (Slice xs c) = c"

text \<open>\<open>make([]byte, 0, c)\<close>: an empty, non-nil slice of capacity \<open>c\<close>.\<close>

definition make_slice :: "nat \<Rightarrow> slice" where
  "make_slice c = Slice [] c"

text \<open>\<open>s[:0]\<close>: the nil slice stays nil, any other slice keeps its capacity.\<close>

fun reslice_to0 :: "slice \<Rightarrow> slice" where
  "reslice_to0 NilSlice = NilSlice"
| "reslice_to0 (Slice xs c) = Slice [] c"

text \<open>
  \<open>s[off:]\<close>: the runtime checks \<open>off \<le> len(s)\<close> and panics with
  "slice bounds out of range" otherwise; the panic is the value \<open>None\<close>.
\<close>

definition slice_from :: "slice \<Rightarrow> nat \<Rightarrow> byte list option" where
  "slice_from s off = (if off \<le> len_slice s then Some (drop off (elems s)) else None)"

text \<open>
  \<open>append(s, p...)\<close>: the bytes of \<open>p\<close> are written after those of \<open>s\<close>. When the
  capacity suffices the backing array is kept; otherwise the runtime allocates a larger
  one. How much larger is the runtime's policy and not part of this package: it is the
  parameter \<open>g\<close> (old capacity, needed length), and the language only promises that the
  new capacity holds the new length, which is the \<open>max\<close> below.
\<close>

definition append_slice :: "(nat \<Rightarrow> nat \<Rightarrow> nat) \<Rightarrow> slice \<Rightarrow> byte list \<Rightarrow> slice" where
  "append_slice g s p =
     (if s = NilSlice \<and> p = [] then NilSlice
      else let n = len_slice s + length p
           in Slice (elems s @ p)
                (if n \<le> cap_slice s then cap_slice s else max n (g (cap_slice s) n)))"

text \<open>
  \<open>copy(dst, src)\<close> overwrites the first \<open>min(len(dst), len(src))\<close> bytes of \<open>dst\<close> and
  returns that count.
\<close>

definition copy_slice :: "byte list \<Rightarrow> byte list \<Rightarrow> byte list \<times> nat" where
  "copy_slice dst src =
     (let n = min (length dst) (length src) in (take n src @ drop n dst, n))"

text \<open>A growth policy to evaluate examples with: double the old capacity.\<close>

definition double_cap :: "nat \<Rightarrow> nat \<Rightarrow> nat" where
  "double_cap c n = 2 * c"

section \<open>The Buffer\<close>

text \<open>
  \<open>sig\<close> is a pointer to a condition variable: \<open>None\<close> is the nil pointer. The
  condition variable's list of waiting goroutines belongs to package \<open>sync\<close> and is not
  modelled; a reader that waits is the outcome \<open>Waiting\<close> of \<open>Read\<close> below. Every
  method runs under the Buffer's lock (\<open>Lock\<close> for writers, \<open>RLock\<close> for readers), so
  each is one atomic transition of the state.
\<close>

datatype Cond = NewCond

record Buffer =
  buf :: slice
  eof :: bool
  set_b :: bool
  sig :: "Cond option"

text \<open>The zero value \<open>Buffer{}\<close>, the only Buffer a client of the package can build.\<close>

definition zero_Buffer :: Buffer where
  "zero_Buffer = \<lparr>buf = NilSlice, eof = False, set_b = False, sig = None\<rparr>"

datatype error = errClosed | EOF | ErrUnexpectedEOF

definition Len :: "Buffer \<Rightarrow> nat" where
  "Len b = len_slice (buf b)"

definition Cap :: "Buffer \<Rightarrow> nat" where
  "Cap b = cap_slice (buf b)"

definition Bytes :: "Buffer \<Rightarrow> byte list" where
  "Bytes b = [] @ elems (buf b)"

text \<open>\<open>Broadcast\<close> wakes the waiting readers and changes no field of the Buffer.\<close>

definition signal :: "Buffer \<Rightarrow> Buffer" where
  "signal b = (case sig b of None \<Rightarrow> b | Some c \<Rightarrow> b)"

definition Write :: "(nat \<Rightarrow> nat \<Rightarrow> nat) \<Rightarrow> Buffer \<Rightarrow> byte list \<Rightarrow> Buffer \<times> nat \<times> error option" where
  "Write g b p =
     (if length p = 0 then (b, 0, None)
      else if eof b then (b, 0, Some errClosed)
      else
        let b1 = (if buf b = NilSlice then b\<lparr>buf := make_slice 1024\<rparr> else b);
            b2 = b1\<lparr>buf := append_slice g (buf b1) p\<rparr>;
            b3 = signal b2
        in (b3, length p, None))"

definition Close :: "Buffer \<Rightarrow> Buffer \<times> error option" where
  "Close b = ((if \<not> eof b then signal (b\<lparr>eof := True\<rparr>) else b), None)"

definition Reset :: "Buffer \<Rightarrow> Buffer" where
  "Reset b = signal (b\<lparr>eof := False, buf := reslice_to0 (buf b), set_b := \<not> set_b b\<rparr>)"

section \<open>Readers\<close>

text \<open>
  A reader embeds a pointer to its Buffer and owns \<open>off\<close> and \<open>mark\<close>. \<open>off\<close> is a Go
  \<open>int\<close> that starts at 0 and only grows by counts that \<open>copy\<close> returns, so it is a
  natural number here.
\<close>

record reader =
  off :: nat
  mark :: bool

definition NewReader :: "Buffer \<Rightarrow> Buffer \<times> reader" where
  "NewReader b =
     (let b1 = (if sig b = None then b\<lparr>sig := Some NewCond\<rparr> else b)
      in (b1, \<lparr>off = 0, mark = set_b b1\<rparr>))"

text \<open>
  One call of \<open>Read\<close> either returns, waits in \<open>r.sig.Wait()\<close>, or panics. \<open>Wait\<close>
  gives the lock up and sleeps until a broadcast; the loop then tests its condition again
  on the state it finds, which is \<open>Read\<close> on that later state. \<open>Wait\<close> on a nil
  condition variable is a nil pointer dereference, and \<open>r.buf[r.off:]\<close> beyond the
  length is a slice bounds panic.
\<close>

datatype 'a outcome = Return 'a | Waiting | Panic

definition Read :: "Buffer \<Rightarrow> reader \<Rightarrow> byte list \<Rightarrow> (reader \<times> byte list \<times> nat \<times> error option) outcome" where
  "Read b r p =
     (if (\<not> eof b \<and> len_slice (buf b) = off r) \<and> (mark r = set_b b) then
        (case sig b of None \<Rightarrow> Panic | Some c \<Rightarrow> Waiting)
      else if mark r \<noteq> set_b b then Return (r, p, 0, Some ErrUnexpectedEOF)
      else if len_slice (buf b) = off r \<and> eof b then Return (r, p, 0, Some EOF)
      else
        (case slice_from (buf b) (off r) of
           None \<Rightarrow> Panic
         | Some src \<Rightarrow>
             let (p', n) = copy_slice p src
             in Return (r\<lparr>off := off r + n\<rparr>, p', n, None)))"

section \<open>A Buffer and its readers\<close>

text \<open>
  The readers of a Buffer are separate heap objects that share it. The store keeps them
  in creation order: a reader is named by its index, and \<open>NewReader\<close> allocates the
  next one. An event is one call by some goroutine. \<open>Write\<close>, \<open>Close\<close>, \<open>Reset\<close> and
  \<open>NewReader\<close> hold the exclusive lock; reads hold the shared lock, so two of them may
  overlap, but each reads the Buffer and writes only the \<open>off\<close> of its own reader, and
  overlapping reads of different readers act as in either order. An interleaving of calls
  is therefore a list of events. A \<open>Read\<close> that waits leaves the state as it is and is
  tried again by a later \<open>EvRead\<close> of the same reader, which is what the wait loop does
  after a broadcast.
\<close>

record system =
  buffer :: Buffer
  readers :: "reader list"

definition init :: system where
  "init = \<lparr>buffer = zero_Buffer, readers = []\<rparr>"

datatype event =
    EvWrite "byte list"
  | EvClose
  | EvReset
  | EvNewReader
  | EvRead nat "byte list"

datatype reply =
    Wrote nat "error option"
  | Closed "error option"
  | WasReset
  | Created nat
  | Got nat "error option" "byte list"
  | Blocked
  | Crashed
  | NoReader

fun step :: "(nat \<Rightarrow> nat \<Rightarrow> nat) \<Rightarrow> system \<Rightarrow> event \<Rightarrow> system \<times> reply" where
  "step g s (EvWrite p) =
     (case Write g (buffer s) p of (b, n, e) \<Rightarrow> (s\<lparr>buffer := b\<rparr>, Wrote n e))"
| "step g s EvClose =
     (case Close (buffer s) of (b, e) \<Rightarrow> (s\<lparr>buffer := b\<rparr>, Closed e))"
| "step g s EvReset = (s\<lparr>buffer := Reset (buffer s)\<rparr>, WasReset)"
| "step g s EvNewReader =
     (case NewReader (buffer s) of
        (b, r) \<Rightarrow> (\<lparr>buffer = b, readers = readers s @ [r]\<rparr>, Created (length (readers s))))"
| "step g s (EvRead i p) =
     (if i < length (readers s) then
        (case Read (buffer s) (readers s ! i) p of
           Return (r, p', n, e) \<Rightarrow> (s\<lparr>readers := (readers s)[i := r]\<rparr>, Got n e p')
         | Waiting \<Rightarrow> (s, Blocked)
         | Panic \<Rightarrow> (s, Crashed))
      else (s, NoReader))"

text \<open>
  A run of events from a state. A panic is not recovered anywhere in the package, so it
  ends the program: the run has no final state.
\<close>

fun run :: "(nat \<Rightarrow> nat \<Rightarrow> nat) \<Rightarrow> system \<Rightarrow> event list \<Rightarrow> system option" where
  "run g s [] = Some s"
| "run g s (e # es) =
     (case step g s e of (s', rp) \<Rightarrow> if rp = Crashed then None else run g s' es)"

text \<open>
  The bound that \<open>r.buf[r.off:]\<close> needs, for a reader whose mark equals the Buffer's
  epoch.
\<close>

definition reader_in_bounds :: "Buffer \<Rightarrow> reader \<Rightarrow> bool" where
  "reader_in_bounds b r = (if mark r = set_b b then off r \<le> Len b else True)"

definition offsets_in_bounds :: "system \<Rightarrow> bool" where
  "offsets_in_bounds s = list_all (reader_in_bounds (buffer s)) (readers s)"

text \<open>Readers exist only once \<open>NewReader\<close> has installed the condition variable.\<close>

definition has_cond :: "system \<Rightarrow> bool" where
  "has_cond s = (if readers s = [] then True else sig (buffer s) \<noteq> None)"

text \<open>Every reader has captured the current epoch: no \<open>Reset\<close> since any was created.\<close>

definition marks_current :: "system \<Rightarrow> bool" where
  "marks_current s = list_all (\<lambda>r. mark r = set_b (buffer s)) (readers s)"

section \<open>Example states\<close>

definition closed_Buffer :: Buffer where
  "closed_Buffer = fst (Close zero_Buffer)"

text \<open>Storage "abc" of capacity 1024, open, epoch flipped once, with a reader created.\<close>

definition abc_Buffer :: Buffer where
  "abc_Buffer = \<lparr>buf = Slice [97, 98, 99] 1024, eof = False, set_b = True, sig = Some NewCond\<rparr>"

definition stale_reader :: reader where
  "stale_reader = \<lparr>off = 1, mark = False\<rparr>"

definition live_reader :: reader where
  "live_reader = \<lparr>off = 1, mark = True\<rparr>"

text \<open>Two readers of the same Buffer, before and after the first one reads two bytes.\<close>

definition two_readers :: system where
  "two_readers = \<lparr>buffer = abc_Buffer, readers = [live_reader, \<lparr>off = 0, mark = True\<rparr>]\<rparr>"

definition two_readers_after :: system where
  "two_readers_after =
     \<lparr>buffer = abc_Buffer, readers = [\<lparr>off = 3, mark = True\<rparr>, \<lparr>off = 0, mark = True\<rparr>]\<rparr>"

text \<open>A closed Buffer holding "ab" whose only reader has read both bytes.\<close>

definition drained_state :: system where
  "drained_state =
     \<lparr>buffer = \<lparr>buf = Slice [97, 98] 1024, eof = True, set_b = False, sig = Some NewCond\<rparr>,
      readers = [\<lparr>off = 2, mark = False\<rparr>]\<rparr>"

definition drained_trace :: "event list" where
  "drained_trace = [EvRead 0 [0], EvWrite [1], EvClose, EvNewReader, EvRead 1 [0, 0, 0]]"

definition drained_state_after :: system where
  "drained_state_after =
     \<lparr>buffer = \<lparr>buf = Slice [97, 98] 1024, eof = True, set_b = False, sig = Some NewCond\<rparr>,
      readers = [\<lparr>off = 2, mark = False\<rparr>, \<lparr>off = 2, mark = False\<rparr>]\<rparr>"

text \<open>The zero Buffer closed at once, then used by a reader and a writer.\<close>

definition closed_trace :: "event list" where
  "closed_trace = [EvNewReader, EvWrite [1], EvRead 0 [0]]"

definition closed_state :: system where
  "closed_state =
     \<lparr>buffer = \<lparr>buf = NilSlice, eof = True, set_b = False, sig = Some NewCond\<rparr>,
      readers = [\<lparr>off = 0, mark = False\<rparr>]\<rparr>"

text \<open>One byte written to the zero Buffer, then a reader that reads it, then Close.\<close>

definition written_trace :: "event list" where
  "written_trace = [EvNewReader, EvRead 0 [0], EvClose]"

definition written_state :: system where
  "written_state =
     \<lparr>buffer = \<lparr>buf = Slice [97] 1024, eof = True, set_b = False, sig = Some NewCond\<rparr>,
      readers = [\<lparr>off = 1, mark = False\<rparr>]\<rparr>"

text \<open>
  A reader is created, two bytes are written, the reader reads both, and the Buffer is
  reset twice. \<open>stale_state\<close> is the state this run ends in.
\<close>

definition double_reset_trace :: "event list" where
  "double_reset_trace = [EvNewReader, EvWrite [97, 97], EvRead 0 [0, 0], EvReset, EvReset]"

definition stale_state :: system where
  "stale_state =
     \<lparr>buffer = \<lparr>buf = Slice [] 1024, eof = False, set_b = False, sig = Some NewCond\<rparr>,
      readers = [\<lparr>off = 2, mark = False\<rparr>]\<rparr>"

section \<open>Slices\<close>

lemma len_slice_elems: "len_slice s = length (elems s)"
  by (cases s) simp_all

section \<open>Frame and invariant lemmas\<close>

lemma signal_id: "signal b = b"
  by (simp add: signal_def split: option.splits)

text \<open>On a closed Buffer, steps other than \<open>Reset\<close> change neither storage nor flags.\<close>

lemma Write_closed: "eof b \<Longrightarrow> Write g b p = (b, 0, if p = [] then None else Some errClosed)"
  by (simp add: Write_def)

lemma Close_closed: "eof b \<Longrightarrow> Close b = (b, None)"
  by (simp add: Close_def)

lemma Read_buffer_frame: "buffer (fst (step g s (EvRead i p))) = buffer s"
  by (simp split: outcome.splits prod.splits)

lemma step_closed_frame:
  assumes "eof (buffer s)" and "e \<noteq> EvReset"
  shows "eof (buffer (fst (step g s e))) \<and> buf (buffer (fst (step g s e))) = buf (buffer s)
       \<and> set_b (buffer (fst (step g s e))) = set_b (buffer s)"
proof (cases e)
  case (EvWrite p)
  then show ?thesis using assms by (simp add: Write_closed)
next
  case EvClose
  then show ?thesis using assms by (simp add: Close_closed)
next
  case EvReset
  then show ?thesis using assms by simp
next
  case EvNewReader
  then show ?thesis using assms by (simp add: NewReader_def Let_def)
next
  case (EvRead i p)
  then show ?thesis using assms Read_buffer_frame [of g s i p] by simp
qed

lemma run_closed_frame:
  assumes "EvReset \<notin> set evs" and "eof (buffer s)" and "run g s evs = Some s'"
  shows "eof (buffer s') \<and> buf (buffer s') = buf (buffer s) \<and> set_b (buffer s') = set_b (buffer s)"
  using assms
proof (induction evs arbitrary: s)
  case Nil
  then show ?case by simp
next
  case (Cons e es)
  obtain s1 rp where st: "step g s e = (s1, rp)" by (cases "step g s e")
  from Cons.prems st have r: "run g s1 es = Some s'" by (simp split: if_splits)
  from Cons.prems have ne: "e \<noteq> EvReset" and nes: "EvReset \<notin> set es" by auto
  from step_closed_frame [OF Cons.prems(2) ne, of g] st
  have f: "eof (buffer s1)" "buf (buffer s1) = buf (buffer s)" "set_b (buffer s1) = set_b (buffer s)"
    by simp_all
  from Cons.IH [OF nes f(1) r] f show ?case by simp
qed

lemma Read_eof_drained:
  assumes "eof b" and "mark r = set_b b" and "off r = Len b"
  shows "Read b r p = Return (r, p, 0, Some EOF)"
  using assms by (simp add: Read_def Len_def)

lemma step_closed_reader_frame:
  assumes "eof (buffer s)" and "i < length (readers s)"
    and "mark (readers s ! i) = set_b (buffer s)" and "off (readers s ! i) = Len (buffer s)"
    and "e \<noteq> EvReset"
  shows "i < length (readers (fst (step g s e))) \<and> readers (fst (step g s e)) ! i = readers s ! i"
proof (cases e)
  case (EvWrite p)
  then show ?thesis using assms by (simp split: prod.splits)
next
  case EvClose
  then show ?thesis using assms by (simp split: prod.splits)
next
  case EvReset
  then show ?thesis using assms by simp
next
  case EvNewReader
  then show ?thesis using assms by (simp add: NewReader_def Let_def nth_append)
next
  case (EvRead j p)
  show ?thesis
  proof (cases "j = i")
    case True
    with EvRead assms show ?thesis by (simp add: Read_eof_drained)
  next
    case False
    with EvRead assms show ?thesis by (simp split: outcome.splits prod.splits)
  qed
qed

lemma run_closed_reader_frame:
  assumes "EvReset \<notin> set evs" and "eof (buffer s)" and "i < length (readers s)"
    and "mark (readers s ! i) = set_b (buffer s)" and "off (readers s ! i) = Len (buffer s)"
    and "run g s evs = Some s'"
  shows "i < length (readers s') \<and> readers s' ! i = readers s ! i"
  using assms
proof (induction evs arbitrary: s)
  case Nil
  then show ?case by simp
next
  case (Cons e es)
  obtain s1 rp where st: "step g s e = (s1, rp)" by (cases "step g s e")
  from Cons.prems st have r: "run g s1 es = Some s'" by (simp split: if_splits)
  from Cons.prems have ne: "e \<noteq> EvReset" and nes: "EvReset \<notin> set es" by auto
  from step_closed_frame [OF Cons.prems(2) ne, of g] st
  have f: "eof (buffer s1)" "buf (buffer s1) = buf (buffer s)" "set_b (buffer s1) = set_b (buffer s)"
    by simp_all
  from step_closed_reader_frame [OF Cons.prems(2) Cons.prems(3) Cons.prems(4) Cons.prems(5) ne, of g] st
  have k: "i < length (readers s1)" "readers s1 ! i = readers s ! i"
    by simp_all
  have m: "mark (readers s1 ! i) = set_b (buffer s1)" using k f Cons.prems(4) by simp
  have l: "off (readers s1 ! i) = Len (buffer s1)" using k f Cons.prems(5) by (simp add: Len_def)
  from Cons.IH [OF nes f(1) k(1) m l r] k show ?case by simp
qed

lemma Read_frame:
  "buffer (fst (step g s (EvRead i p))) = buffer s
   \<and> length (readers (fst (step g s (EvRead i p)))) = length (readers s)
   \<and> mark (readers (fst (step g s (EvRead i p))) ! i) = mark (readers s ! i)
   \<and> (j \<noteq> i \<longrightarrow> readers (fst (step g s (EvRead i p))) ! j = readers s ! j)"
proof (cases "i < length (readers s)")
  case False
  then show ?thesis by simp
next
  case True
  show ?thesis
  proof (cases "Read (buffer s) (readers s ! i) p")
    case (Return x)
    obtain r p' n e where x: "x = (r, p', n, e)" by (cases x)
    from Return x have "mark r = mark (readers s ! i)"
      by (auto simp add: Read_def Let_def split: if_splits option.splits prod.splits)
    with Return x True show ?thesis by simp
  next
    case Waiting
    with True show ?thesis by simp
  next
    case Panic
    with True show ?thesis by simp
  qed
qed

text \<open>A successful non-empty write leaves a positive capacity, which no step takes away.\<close>

lemma step_Write_buffer:
  "buffer (fst (step g s (EvWrite p))) = fst (Write g (buffer s) p)"
  by (cases "Write g (buffer s) p") simp

lemma cap_append_slice:
  assumes "p \<noteq> []"
  shows "len_slice s + length p \<le> cap_slice (append_slice g s p)"
  using assms by (simp add: append_slice_def Let_def)

lemma cap_pos_Write:
  assumes "\<not> eof b" and "p \<noteq> []"
  shows "0 < Cap (fst (Write g b p))"
proof -
  have lp: "0 < length p" using assms(2) by simp
  have "\<And>s. 0 < cap_slice (append_slice g s p)"
  proof -
    fix s
    from cap_append_slice [OF assms(2), of s g] lp show "0 < cap_slice (append_slice g s p)"
      by linarith
  qed
  with assms show ?thesis
    by (simp add: Write_def Let_def signal_id Cap_def)
qed

lemma cap_pos_step:
  assumes "0 < Cap (buffer s)"
  shows "0 < Cap (buffer (fst (step g s e)))"
proof (cases e)
  case (EvWrite p)
  show ?thesis
  proof (cases "p = [] \<or> eof (buffer s)")
    case True
    with EvWrite assms show ?thesis by (auto simp add: Write_def)
  next
    case False
    then have "0 < Cap (fst (Write g (buffer s) p))" by (simp add: cap_pos_Write)
    with EvWrite show ?thesis by (simp only: step_Write_buffer)
  qed
next
  case EvClose
  then show ?thesis using assms by (simp add: Close_def signal_id Cap_def)
next
  case EvReset
  then show ?thesis using assms
    by (cases "buf (buffer s)") (simp_all add: Reset_def signal_id Cap_def)
next
  case EvNewReader
  then show ?thesis using assms by (simp add: NewReader_def Let_def Cap_def)
next
  case (EvRead i p)
  then show ?thesis using assms Read_buffer_frame [of g s i p] by simp
qed

lemma cap_pos_run:
  assumes "0 < Cap (buffer s)" and "run g s evs = Some s'"
  shows "0 < Cap (buffer s')"
  using assms
proof (induction evs arbitrary: s)
  case Nil
  then show ?case by simp
next
  case (Cons e es)
  obtain s1 rp where st: "step g s e = (s1, rp)" by (cases "step g s e")
  from Cons.prems st have r: "run g s1 es = Some s'" by (simp split: if_splits)
  from cap_pos_step [OF Cons.prems(1), of g e] st have "0 < Cap (buffer s1)" by simp
  from Cons.IH [OF this r] show ?case .
qed

lemma Reset_fields:
  "eof (Reset b) = False \<and> elems (buf (Reset b)) = [] \<and> Len (Reset b) = 0
   \<and> Cap (Reset b) = Cap b \<and> set_b (Reset b) = (\<not> set_b b) \<and> sig (Reset b) = sig b"
  by (cases "buf b") (simp_all add: Reset_def signal_id Len_def Cap_def)


lemmas eval_defs = init_def zero_Buffer_def Write_def Close_def Reset_def signal_def
  NewReader_def Read_def slice_from_def copy_slice_def append_slice_def make_slice_def
  Len_def Cap_def Let_def

text \<open>
  Steps other than \<open>Reset\<close> keep offsets within bounds, and a step from a state with
  offsets within bounds and the condition variable installed does not panic.
\<close>

lemma Write_Len_mono: "Len b \<le> Len (fst (Write g b p)) \<and> set_b (fst (Write g b p)) = set_b b"
  by (cases "buf b") (simp_all add: Write_def Let_def signal_id append_slice_def make_slice_def Len_def)

lemma Read_keeps_bounds:
  assumes "Read b r p = Return (r', p', n, e)" and "reader_in_bounds b r"
  shows "reader_in_bounds b r'"
  using assms
  by (auto simp add: Read_def reader_in_bounds_def slice_from_def copy_slice_def Len_def
      Let_def len_slice_elems split: if_splits option.splits)

lemma bounds_mono:
  assumes "reader_in_bounds b r" and "Len b \<le> Len b'" and "set_b b' = set_b b"
  shows "reader_in_bounds b' r"
  using assms by (simp add: reader_in_bounds_def split: if_splits)

lemma bounds_cong:
  assumes "Len b' = Len b" and "set_b b' = set_b b"
  shows "reader_in_bounds b' = reader_in_bounds b"
  using assms by (intro ext) (simp add: reader_in_bounds_def)

lemma step_keeps_bounds:
  assumes "offsets_in_bounds s" and "e \<noteq> EvReset"
  shows "offsets_in_bounds (fst (step g s e))"
proof (cases e)
  case (EvWrite p)
  have "reader_in_bounds (fst (Write g (buffer s) p)) r" if "r \<in> set (readers s)" for r
  proof -
    from that assms(1) have "reader_in_bounds (buffer s) r"
      by (simp add: offsets_in_bounds_def list_all_iff)
    then show ?thesis
      by (rule bounds_mono) (simp_all add: Write_Len_mono)
  qed
  then have "list_all (reader_in_bounds (fst (Write g (buffer s) p))) (readers s)"
    by (simp add: list_all_iff)
  with EvWrite show ?thesis
    by (cases "Write g (buffer s) p") (simp add: offsets_in_bounds_def)
next
  case EvClose
  have "reader_in_bounds (fst (Close (buffer s))) = reader_in_bounds (buffer s)"
    by (rule bounds_cong) (simp_all add: Close_def signal_id Len_def)
  with EvClose assms show ?thesis
    by (cases "Close (buffer s)") (simp add: offsets_in_bounds_def)
next
  case EvReset
  with assms show ?thesis by simp
next
  case EvNewReader
  obtain b r where nr: "NewReader (buffer s) = (b, r)" by (cases "NewReader (buffer s)")
  then have lb: "Len b = Len (buffer s)" and sb: "set_b b = set_b (buffer s)" and r: "off r = 0"
    by (auto simp add: NewReader_def Let_def Len_def split: if_splits)
  have "reader_in_bounds b = reader_in_bounds (buffer s)"
    using lb sb by (rule bounds_cong)
  moreover have "reader_in_bounds (buffer s) r"
    using r by (simp add: reader_in_bounds_def)
  ultimately show ?thesis
    using EvNewReader nr assms
    by (simp add: offsets_in_bounds_def)
next
  case (EvRead i p)
  show ?thesis
  proof (cases "i < length (readers s)")
    case False
    with EvRead assms show ?thesis by simp
  next
    case True
    show ?thesis
    proof (cases "Read (buffer s) (readers s ! i) p")
      case (Return x)
      obtain r' p' n er where x: "x = (r', p', n, er)" by (cases x)
      have "reader_in_bounds (buffer s) (readers s ! i)"
        using assms(1) True by (simp add: offsets_in_bounds_def list_all_length)
      with Return x have "reader_in_bounds (buffer s) r'"
        using Read_keeps_bounds by blast
      with assms(1) True have "list_all (reader_in_bounds (buffer s)) ((readers s)[i := r'])"
        by (auto simp add: offsets_in_bounds_def list_all_length nth_list_update)
      with EvRead True Return x show ?thesis
        by (simp add: offsets_in_bounds_def)
    next
      case Waiting
      with EvRead True assms show ?thesis by simp
    next
      case Panic
      with EvRead True assms show ?thesis by simp
    qed
  qed
qed

lemma step_keeps_cond:
  assumes "has_cond s"
  shows "has_cond (fst (step g s e))"
proof (cases e)
  case (EvWrite p)
  have "sig (fst (Write g (buffer s) p)) = sig (buffer s)"
    by (simp add: Write_def Let_def signal_id)
  with EvWrite assms show ?thesis
    by (cases "Write g (buffer s) p") (auto simp add: has_cond_def split: if_splits)
next
  case EvClose
  with assms show ?thesis by (auto simp add: has_cond_def Close_def signal_id split: if_splits)
next
  case EvReset
  with assms show ?thesis by (auto simp add: has_cond_def Reset_def signal_id split: if_splits)
next
  case EvNewReader
  with assms show ?thesis by (auto simp add: has_cond_def NewReader_def Let_def split: if_splits)
next
  case (EvRead i p)
  with assms show ?thesis
    by (auto simp add: has_cond_def split: outcome.splits if_splits)
qed

lemma bounded_step_no_panic:
  assumes "offsets_in_bounds s" and "has_cond s"
  shows "snd (step g s e) \<noteq> Crashed"
proof (cases e)
  case (EvRead i p)
  show ?thesis
  proof (cases "i < length (readers s)")
    case False
    with EvRead show ?thesis by simp
  next
    case True
    then have ne: "readers s \<noteq> []" by auto
    have rb: "reader_in_bounds (buffer s) (readers s ! i)"
      using assms(1) True by (simp add: offsets_in_bounds_def list_all_length)
    have "Read (buffer s) (readers s ! i) p \<noteq> Panic"
      using rb assms(2) ne
      by (auto simp add: Read_def has_cond_def reader_in_bounds_def slice_from_def Len_def
          copy_slice_def Let_def split: if_splits option.splits)
    with EvRead True show ?thesis
      by (simp split: outcome.splits prod.splits)
  qed
qed (simp_all split: prod.splits)

lemma run_without_Reset:
  assumes "EvReset \<notin> set evs" and "offsets_in_bounds s" and "has_cond s"
  shows "\<exists>s'. run g s evs = Some s' \<and> offsets_in_bounds s' \<and> has_cond s'"
  using assms
proof (induction evs arbitrary: s)
  case Nil
  then show ?case by simp
next
  case (Cons e es)
  obtain s1 rp where st: "step g s e = (s1, rp)" by (cases "step g s e")
  from Cons.prems have ne: "e \<noteq> EvReset" and nes: "EvReset \<notin> set es" by auto
  from step_keeps_bounds [OF Cons.prems(2) ne, of g] st have b1: "offsets_in_bounds s1" by simp
  from step_keeps_cond [OF Cons.prems(3), of g e] st have c1: "has_cond s1" by simp
  from bounded_step_no_panic [OF Cons.prems(2) Cons.prems(3), of g e] st have "rp \<noteq> Crashed" by simp
  with Cons.IH [OF nes b1 c1] st show ?case by simp
qed

text \<open>
  Runs with at most one \<open>Reset\<close>, from the zero Buffer, never panic and keep every
  offset within bounds: before the \<open>Reset\<close> all marks equal the epoch, and after it
  the readers created before have a mark that differs.
\<close>

lemma Read_keeps_mark:
  assumes "Read b r p = Return (r', p', n, e)"
  shows "mark r' = mark r"
  using assms
  by (auto simp add: Read_def Let_def split: if_splits option.splits prod.splits)

lemma step_keeps_marks:
  assumes "marks_current s" and "e \<noteq> EvReset"
  shows "marks_current (fst (step g s e))"
proof (cases e)
  case (EvWrite p)
  have "set_b (fst (Write g (buffer s) p)) = set_b (buffer s)"
    by (simp add: Write_Len_mono)
  with EvWrite assms(1) show ?thesis
    by (cases "Write g (buffer s) p") (simp add: marks_current_def)
next
  case EvClose
  have "set_b (fst (Close (buffer s))) = set_b (buffer s)"
    by (simp add: Close_def signal_id)
  with EvClose assms(1) show ?thesis
    by (cases "Close (buffer s)") (simp add: marks_current_def)
next
  case EvReset
  with assms show ?thesis by simp
next
  case EvNewReader
  obtain b r where nr: "NewReader (buffer s) = (b, r)" by (cases "NewReader (buffer s)")
  then have "set_b b = set_b (buffer s)" and "mark r = set_b (buffer s)"
    by (auto simp add: NewReader_def Let_def split: if_splits)
  with EvNewReader nr assms(1) show ?thesis
    by (simp add: marks_current_def)
next
  case (EvRead i p)
  show ?thesis
  proof (cases "i < length (readers s)")
    case False
    with EvRead assms show ?thesis by simp
  next
    case True
    show ?thesis
    proof (cases "Read (buffer s) (readers s ! i) p")
      case (Return x)
      obtain r' p' n er where x: "x = (r', p', n, er)" by (cases x)
      from Return x have "mark r' = mark (readers s ! i)"
        by (simp add: Read_keeps_mark)
      moreover have "mark (readers s ! i) = set_b (buffer s)"
        using assms(1) True by (simp add: marks_current_def list_all_length)
      ultimately have "list_all (\<lambda>r. mark r = set_b (buffer s)) ((readers s)[i := r'])"
        using assms(1) True
        by (auto simp add: marks_current_def list_all_length nth_list_update)
      with EvRead True Return x show ?thesis
        by (simp add: marks_current_def)
    next
      case Waiting
      with EvRead True assms show ?thesis by simp
    next
      case Panic
      with EvRead True assms show ?thesis by simp
    qed
  qed
qed

lemma Reset_after_current:
  assumes "marks_current s"
  shows "offsets_in_bounds (fst (step g s EvReset))"
proof -
  have "reader_in_bounds (Reset (buffer s)) r" if "r \<in> set (readers s)" for r
  proof -
    from that assms have "mark r = set_b (buffer s)"
      by (simp add: marks_current_def list_all_iff)
    then show ?thesis
      by (simp add: reader_in_bounds_def Reset_fields)
  qed
  then show ?thesis
    by (simp add: offsets_in_bounds_def list_all_iff)
qed

lemma run_append:
  "run g s (xs @ ys) = (case run g s xs of None \<Rightarrow> None | Some s1 \<Rightarrow> run g s1 ys)"
  by (induction xs arbitrary: s) (simp_all split: prod.splits)

lemma run_without_Reset_marks:
  assumes "EvReset \<notin> set evs" and "marks_current s" and "run g s evs = Some s'"
  shows "marks_current s'"
  using assms
proof (induction evs arbitrary: s)
  case Nil
  then show ?case by simp
next
  case (Cons e es)
  obtain s1 rp where st: "step g s e = (s1, rp)" by (cases "step g s e")
  from Cons.prems st have r: "run g s1 es = Some s'" by (simp split: if_splits)
  from Cons.prems have ne: "e \<noteq> EvReset" and nes: "EvReset \<notin> set es" by auto
  from step_keeps_marks [OF Cons.prems(2) ne, of g] st have "marks_current s1" by simp
  from Cons.IH [OF nes this r] show ?case .
qed

lemma init_invariants: "offsets_in_bounds init \<and> has_cond init \<and> marks_current init"
  by (simp add: init_def offsets_in_bounds_def has_cond_def marks_current_def)

lemma run_one_Reset:
  assumes "EvReset \<notin> set evs1" and "EvReset \<notin> set evs2"
  shows "\<exists>s'. run g init (evs1 @ EvReset # evs2) = Some s' \<and> offsets_in_bounds s'"
proof -
  from run_without_Reset [OF assms(1), of init g] init_invariants
  obtain s1 where r1: "run g init evs1 = Some s1" and c1: "has_cond s1"
    by auto
  from run_without_Reset_marks [OF assms(1) _ r1] init_invariants
  have m1: "marks_current s1" by simp
  obtain s2 where s2: "s2 = fst (step g s1 EvReset)" by simp
  from Reset_after_current [OF m1, of g] s2 have b2: "offsets_in_bounds s2" by simp
  from step_keeps_cond [OF c1, of g EvReset] s2 have c2: "has_cond s2" by simp
  from run_without_Reset [OF assms(2) b2 c2, of g]
  obtain s' where r2: "run g s2 evs2 = Some s'" and b': "offsets_in_bounds s'"
    by auto
  have "run g init (evs1 @ EvReset # evs2) = Some s'"
    using r1 r2 s2 by (simp add: run_append)
  with b' show ?thesis by blast
qed

section \<open>Write\<close>

text \<open>
  C4. In every state of the Buffer (open or closed, whatever its storage, epoch and
  condition variable), \<open>Write\<close> with an empty input returns count 0 and no error and
  leaves the whole Buffer as it was: storage, closed flag and epoch are unchanged.
\<close>

theorem C4_Write_empty_noop:
  "Write g b [] = (b, 0, None)"
  by (simp add: Write_def)

text \<open>
  C8. On an open Buffer, \<open>Write\<close> with a non-empty input returns the input's length and
  no error; the storage afterwards is the old storage followed by the input, so its
  length grew by exactly the input's length, and the closed flag, the epoch and the
  condition variable are unchanged.
\<close>

theorem C8_Write_appends_all:
  assumes "\<not> eof b" and "p \<noteq> []"
  shows "snd (Write g b p) = (length p, None)
       \<and> elems (buf (fst (Write g b p))) = elems (buf b) @ p
       \<and> Len (fst (Write g b p)) = Len b + length p
       \<and> eof (fst (Write g b p)) = eof b
       \<and> set_b (fst (Write g b p)) = set_b b
       \<and> sig (fst (Write g b p)) = sig b"
proof -
  have nil: "buf b = NilSlice \<Longrightarrow> elems (buf b) = [] \<and> len_slice (buf b) = 0"
    by simp
  have sg: "\<And>x. signal x = x"
    by (simp add: signal_def split: option.splits)
  show ?thesis
    using assms nil
    by (simp add: Write_def Let_def sg append_slice_def make_slice_def Len_def
        len_slice_elems)
qed

theorem C8_witness:
  "\<not> eof abc_Buffer \<and> [100, 101] \<noteq> ([] :: byte list)
   \<and> snd (Write double_cap abc_Buffer [100, 101]) = (2, None)
   \<and> elems (buf (fst (Write double_cap abc_Buffer [100, 101]))) = [97, 98, 99, 100, 101]
   \<and> Len (fst (Write double_cap abc_Buffer [100, 101])) = 5
   \<and> eof (fst (Write double_cap abc_Buffer [100, 101])) = False
   \<and> set_b (fst (Write double_cap abc_Buffer [100, 101])) = True"
  using C8_Write_appends_all [of abc_Buffer "[100, 101]" double_cap]
  by (simp add: abc_Buffer_def Len_def)

text \<open>
  C3, as stated, at the empty input: \<open>Write\<close> with no bytes on a closed Buffer does not
  return the write-on-closed error; it returns count 0 and no error, because the test
  \<open>len(p) == 0\<close> comes before the test of the closed flag.
\<close>

theorem C3_empty_Write_on_closed_succeeds:
  "eof closed_Buffer
   \<and> Write double_cap closed_Buffer [] = (closed_Buffer, 0, None)
   \<and> snd (snd (Write double_cap closed_Buffer [])) \<noteq> Some errClosed"
  by (simp add: closed_Buffer_def zero_Buffer_def Close_def signal_def Write_def)

text \<open>
  C3, amended. After \<open>Close\<close>, and after any further calls other than \<open>Reset\<close> (writes,
  closes, new readers, reads) that run without a panic, \<open>Write\<close> returns count 0 and
  leaves the Buffer, so also its storage, unchanged; for every non-empty input the error is
  the write-on-closed error, and for the empty input there is no error.
\<close>

theorem C3_Write_after_Close:
  assumes "EvReset \<notin> set evs" and "run g (fst (step g s EvClose)) evs = Some s'"
  shows "Write g (buffer s') p = (buffer s', 0, if p = [] then None else Some errClosed)"
proof -
  have "eof (buffer (fst (step g s EvClose)))"
    by (simp add: Close_def signal_id)
  from run_closed_frame [OF assms(1) this assms(2)] show ?thesis
    by (simp add: Write_closed)
qed

theorem C3_witness:
  "EvReset \<notin> set closed_trace
   \<and> run double_cap (fst (step double_cap init EvClose)) closed_trace = Some closed_state
   \<and> Write double_cap (buffer closed_state) [5] = (buffer closed_state, 0, Some errClosed)
   \<and> Write double_cap (buffer closed_state) [] = (buffer closed_state, 0, None)"
  using C3_Write_after_Close [of closed_trace double_cap init closed_state "[5]"]
    C3_Write_after_Close [of closed_trace double_cap init closed_state "[]"]
  by (simp add: closed_trace_def closed_state_def eval_defs)

section \<open>Read\<close>

text \<open>
  C5. When a reader's mark differs from the Buffer's epoch, \<open>Read\<close> returns 0 bytes and
  the unexpected-EOF (stream discontinued) error, leaves the reader (its offset) and the
  caller's buffer as they were, and does so whatever the closed flag, the storage and the
  offset are: the epoch test comes before the end-of-stream test and before the copy, and
  the wait loop is left at once.
\<close>

theorem C5_Read_discontinued:
  assumes "mark r \<noteq> set_b b"
  shows "Read b r p = Return (r, p, 0, Some ErrUnexpectedEOF)"
  using assms by (simp add: Read_def)

theorem C5_witness:
  "mark stale_reader \<noteq> set_b abc_Buffer
   \<and> off stale_reader < Len abc_Buffer
   \<and> Read abc_Buffer stale_reader [0, 0] = Return (stale_reader, [0, 0], 0, Some ErrUnexpectedEOF)"
  using C5_Read_discontinued [of stale_reader abc_Buffer "[0, 0]"]
  by (simp add: stale_reader_def abc_Buffer_def Len_def)

text \<open>
  C7. When a reader's mark equals the Buffer's epoch and its offset is below the storage
  length, \<open>Read\<close> returns with no error the count \<open>n = min (len p) (len buf - off)\<close>, the
  caller's buffer holds in its first \<open>n\<close> places the \<open>n\<close> bytes of storage that start at
  the offset (the rest of it is untouched), and the reader's offset has grown by \<open>n\<close>.
\<close>

theorem C7_Read_copies:
  assumes "mark r = set_b b" and "off r < Len b"
  shows "Read b r p =
           Return (r\<lparr>off := off r + min (length p) (Len b - off r)\<rparr>,
                   take (min (length p) (Len b - off r)) (drop (off r) (elems (buf b)))
                     @ drop (min (length p) (Len b - off r)) p,
                   min (length p) (Len b - off r),
                   None)"
  using assms
  by (simp add: Read_def slice_from_def copy_slice_def Len_def len_slice_elems Let_def)

theorem C7_witness:
  "mark live_reader = set_b abc_Buffer \<and> off live_reader < Len abc_Buffer
   \<and> Read abc_Buffer live_reader [0, 0, 0] = Return (\<lparr>off = 3, mark = True\<rparr>, [98, 99, 0], 2, None)
   \<and> Read abc_Buffer live_reader [0] = Return (\<lparr>off = 2, mark = True\<rparr>, [98], 1, None)"
  using C7_Read_copies [of live_reader abc_Buffer "[0, 0, 0]"]
    C7_Read_copies [of live_reader abc_Buffer "[0]"]
  by (simp add: live_reader_def abc_Buffer_def Len_def)

text \<open>
  C6. For a reader whose mark equals the Buffer's epoch and whose offset equals the
  storage length, on a closed Buffer, \<open>Read\<close> returns 0 bytes and the end-of-stream
  error, and changes neither the reader nor the caller's buffer. This repeats: after any
  further calls other than \<open>Reset\<close> that run without a panic, a \<open>Read\<close> of the same
  reader again returns 0 bytes and end-of-stream and leaves the whole state as it is; the
  reader, the storage, the closed flag and the epoch are still what they were.
\<close>

theorem C6_Read_end_of_stream:
  assumes "i < length (readers s)" and "eof (buffer s)"
    and "mark (readers s ! i) = set_b (buffer s)" and "off (readers s ! i) = Len (buffer s)"
    and "EvReset \<notin> set evs" and "run g s evs = Some s'"
  shows "Read (buffer s) (readers s ! i) p = Return (readers s ! i, p, 0, Some EOF)
       \<and> step g s' (EvRead i q) = (s', Got 0 (Some EOF) q)
       \<and> readers s' ! i = readers s ! i
       \<and> buf (buffer s') = buf (buffer s) \<and> eof (buffer s') \<and> set_b (buffer s') = set_b (buffer s)"
proof -
  note fr = run_closed_frame [OF assms(5) assms(2) assms(6)]
  note rf = run_closed_reader_frame [OF assms(5) assms(2) assms(1) assms(3) assms(4) assms(6)]
  have m: "mark (readers s' ! i) = set_b (buffer s')" using fr rf assms(3) by simp
  have l: "off (readers s' ! i) = Len (buffer s')" using fr rf assms(4) by (simp add: Len_def)
  have rd: "Read (buffer s') (readers s' ! i) q = Return (readers s' ! i, q, 0, Some EOF)"
    using fr m l by (simp add: Read_eof_drained)
  have il: "i < length (readers s')" using rf by simp
  have "step g s' (EvRead i q) = (s', Got 0 (Some EOF) q)"
    using rd il by simp
  then show ?thesis
    using fr rf assms(2) assms(3) assms(4) by (simp add: Read_eof_drained)
qed

theorem C6_witness:
  "0 < length (readers drained_state) \<and> eof (buffer drained_state)
   \<and> mark (readers drained_state ! 0) = set_b (buffer drained_state)
   \<and> off (readers drained_state ! 0) = Len (buffer drained_state)
   \<and> EvReset \<notin> set drained_trace
   \<and> run double_cap drained_state drained_trace = Some drained_state_after
   \<and> Read (buffer drained_state) (readers drained_state ! 0) [7, 7]
       = Return (readers drained_state ! 0, [7, 7], 0, Some EOF)
   \<and> step double_cap drained_state_after (EvRead 0 [7, 7])
       = (drained_state_after, Got 0 (Some EOF) [7, 7])"
  using C6_Read_end_of_stream [of 0 drained_state drained_trace double_cap drained_state_after
      "[7, 7]" "[7, 7]"]
  by (simp add: drained_state_def drained_trace_def drained_state_after_def eval_defs)

text \<open>
  C9. A \<open>Read\<close> on reader \<open>i\<close> leaves the Buffer (storage, closed flag, epoch) as it
  was, creates and removes no reader, keeps the mark of reader \<open>i\<close>, and leaves every
  other reader \<open>j\<close> as it was. So what a \<open>Read\<close> on reader \<open>j\<close> returns, and the bytes
  it delivers, are the same after the \<open>Read\<close> on \<open>i\<close> as before it: reading from one
  reader consumes nothing that another one gets.
\<close>

theorem C9_Read_frame:
  assumes "step g s (EvRead i p) = (s', rp)" and "j \<noteq> i"
  shows "buffer s' = buffer s
       \<and> length (readers s') = length (readers s)
       \<and> mark (readers s' ! i) = mark (readers s ! i)
       \<and> readers s' ! j = readers s ! j
       \<and> Read (buffer s') (readers s' ! j) q = Read (buffer s) (readers s ! j) q
       \<and> snd (step g s' (EvRead j q)) = snd (step g s (EvRead j q))"
proof -
  from Read_frame [of g s i p j] assms
  have f: "buffer s' = buffer s" "length (readers s') = length (readers s)"
    "mark (readers s' ! i) = mark (readers s ! i)" "readers s' ! j = readers s ! j"
    by simp_all
  then have "snd (step g s' (EvRead j q)) = snd (step g s (EvRead j q))"
    by (simp split: outcome.splits prod.splits)
  with f show ?thesis by simp
qed

theorem C9_witness:
  "step double_cap two_readers (EvRead 0 [0, 0]) = (two_readers_after, Got 2 None [98, 99])
   \<and> (1 :: nat) \<noteq> 0
   \<and> buffer two_readers_after = buffer two_readers
   \<and> readers two_readers_after ! 1 = readers two_readers ! 1
   \<and> Read (buffer two_readers_after) (readers two_readers_after ! 1) [0, 0, 0]
       = Return (\<lparr>off = 3, mark = True\<rparr>, [97, 98, 99], 3, None)
   \<and> snd (step double_cap two_readers_after (EvRead 1 [0, 0, 0])) = Got 3 None [97, 98, 99]"
  using C9_Read_frame [of double_cap two_readers 0 "[0, 0]" two_readers_after
      "Got 2 None [98, 99]" 1 "[0, 0, 0]"]
  by (simp add: two_readers_def two_readers_after_def abc_Buffer_def live_reader_def eval_defs)

section \<open>Reset\<close>

text \<open>
  C10. In every state, \<open>Reset\<close> clears the closed flag, truncates the storage to length
  0 and keeps its capacity, and flips the epoch. In particular, once a non-empty write has
  succeeded, then after any further calls that run without a panic, \<open>Reset\<close> leaves a
  Buffer whose \<open>Len\<close> is 0 and whose \<open>Cap\<close> is what it was before the \<open>Reset\<close> and
  greater than 0.
\<close>

theorem C10_Reset_truncates:
  "eof (Reset b) = False \<and> elems (buf (Reset b)) = [] \<and> Len (Reset b) = 0
   \<and> Cap (Reset b) = Cap b \<and> set_b (Reset b) = (\<not> set_b b)
   \<and> (p \<noteq> [] \<and> \<not> eof (buffer s) \<and> run g (fst (step g s (EvWrite p))) evs = Some s'
        \<longrightarrow> Len (Reset (buffer s')) = 0 \<and> Cap (Reset (buffer s')) = Cap (buffer s')
          \<and> 0 < Cap (Reset (buffer s')))"
proof -
  have "0 < Cap (buffer s')"
    if "p \<noteq> []" and "\<not> eof (buffer s)" and "run g (fst (step g s (EvWrite p))) evs = Some s'"
  proof -
    have "0 < Cap (fst (Write g (buffer s) p))"
      using that(2) that(1) by (rule cap_pos_Write)
    then have "0 < Cap (buffer (fst (step g s (EvWrite p))))"
      by (simp only: step_Write_buffer)
    from cap_pos_run [OF this that(3)] show ?thesis .
  qed
  then show ?thesis
    using Reset_fields [of b] Reset_fields [of "buffer s'"] by simp
qed

theorem C10_witness:
  "Len (Reset abc_Buffer) = 0 \<and> Cap (Reset abc_Buffer) = 1024 \<and> set_b (Reset abc_Buffer) = False
   \<and> [97] \<noteq> ([] :: byte list) \<and> \<not> eof (buffer init)
   \<and> run double_cap (fst (step double_cap init (EvWrite [97]))) written_trace = Some written_state
   \<and> Len (Reset (buffer written_state)) = 0
   \<and> Cap (Reset (buffer written_state)) = 1024
   \<and> 0 < Cap (Reset (buffer written_state))"
  using C10_Reset_truncates [of abc_Buffer "[97]" init double_cap written_trace written_state]
  by (simp add: abc_Buffer_def written_trace_def written_state_def eval_defs)

section \<open>Runs with two resets\<close>

text \<open>
  The epoch is one bit, so a second \<open>Reset\<close> gives it back the value that a reader
  created before the first \<open>Reset\<close> has captured, while the offset of that reader still
  counts bytes of the storage that was truncated.
\<close>

text \<open>
  C2, on the run \<open>double_reset_trace\<close> from the zero Buffer: the run ends without a
  panic in \<open>stale_state\<close>, where the reader's mark equals the epoch and its offset 2 is
  above the storage length 0.
\<close>

theorem C2_double_Reset_offset_above_length:
  "run double_cap init double_reset_trace = Some stale_state
   \<and> \<not> offsets_in_bounds stale_state
   \<and> mark (readers stale_state ! 0) = set_b (buffer stale_state)
   \<and> Len (buffer stale_state) < off (readers stale_state ! 0)"
  by (simp add: double_reset_trace_def stale_state_def eval_defs offsets_in_bounds_def
      reader_in_bounds_def)

text \<open>
  C1, on the same run followed by a \<open>Read\<close> of that reader: the wait loop is left, the
  epoch test and the end-of-stream test pass, and \<open>r.buf[r.off:]\<close> is evaluated with
  offset 2 on storage of length 0, which panics; the run has no final state.
\<close>

theorem C1_double_Reset_Read_panics:
  "run double_cap init (double_reset_trace @ [EvRead 0 [0, 0]]) = None
   \<and> Read (buffer stale_state) (readers stale_state ! 0) [0, 0] = Panic
   \<and> slice_from (buf (buffer stale_state)) (off (readers stale_state ! 0)) = None"
  by (simp add: double_reset_trace_def stale_state_def eval_defs)

end
